theory Spec2Isabelle
  imports Complex_Main "HOL-Library.Log_Nat"
begin

chapter \<open>bandping: bandwidth and ping monitors\<close>

text \<open>
  A shallow embedding of the sampling and rendering core of \<^verbatim>\<open>bandwidth.py\<close> and
  \<^verbatim>\<open>pingmon.py\<close>: the counter difference \<^verbatim>\<open>safe_diff\<close> and the rate derived from it,
  the chart renderer \<^verbatim>\<open>render_chart_precise\<close>, the probe wrapper \<^verbatim>\<open>do_ping\<close> and the
  statistics kept by the loops of \<^verbatim>\<open>monitor_ping_basic\<close> and \<^verbatim>\<open>monitor_ping_advanced\<close>.

  Python integers are \<^typ>\<open>int\<close>. A Python float is a \<^typ>\<open>rat\<close>, and every float operation
  rounds its exact result to the nearest binary64 number, ties to even; the exponent range is
  unbounded, so overflow to infinity and subnormal numbers are not modelled. A Python
  exception is a value of \<open>py_error\<close>, returned on the left of a sum.
\<close>

section \<open>Python numbers\<close>

datatype py_error = ZeroDivisionError | IndexError

text \<open>Rounding a rational to an integer, ties to the even neighbour; the exponent \<open>e\<close> of
  a non-zero rational, \<open>2^e \<le> |x| < 2^(e+1)\<close>; and rounding to 53 significant bits.\<close>

definition round_half_even :: "rat \<Rightarrow> int" where
  "round_half_even x =
     (let f = \<lfloor>x\<rfloor>; d = x - of_int f
      in if d < 1 / 2 then f else if 1 / 2 < d then f + 1 else if even f then f else f + 1)"

definition binade :: "rat \<Rightarrow> int" where
  "binade x =
     (case quotient_of \<bar>x\<bar> of (p, q) \<Rightarrow>
        let d = bitlen p - bitlen q in if 2 powi d \<le> \<bar>x\<bar> then d else d - 1)"

definition fl :: "rat \<Rightarrow> rat" where
  "fl x = (if x = 0 then 0
           else let u = 2 powi (binade x - 52) in of_int (round_half_even (x / u)) * u)"

text \<open>\<^verbatim>\<open>float(i)\<close> and the arithmetic of floats. \<open>fdiv\<close> and \<open>truediv\<close> (the \<^verbatim>\<open>/\<close> of two
  integers, which Python rounds once) are used only behind a test that the divisor is not
  zero; where the source has no such test the model raises \<open>ZeroDivisionError\<close> itself.\<close>

definition of_pyint :: "int \<Rightarrow> rat" where
  "of_pyint i = fl (of_int i)"

definition fadd :: "rat \<Rightarrow> rat \<Rightarrow> rat" where
  "fadd a b = fl (a + b)"

definition fsub :: "rat \<Rightarrow> rat \<Rightarrow> rat" where
  "fsub a b = fl (a - b)"

definition fmul :: "rat \<Rightarrow> rat \<Rightarrow> rat" where
  "fmul a b = fl (a * b)"

definition fdiv :: "rat \<Rightarrow> rat \<Rightarrow> rat" where
  "fdiv a b = fl (a / b)"

definition truediv :: "int \<Rightarrow> int \<Rightarrow> rat" where
  "truediv a b = fl (of_int a / of_int b)"

text \<open>\<^verbatim>\<open>int(x)\<close> of a float truncates towards zero.\<close>

definition py_int :: "rat \<Rightarrow> int" where
  "py_int x = (if 0 \<le> x then \<lfloor>x\<rfloor> else \<lceil>x\<rceil>)"

section \<open>bandwidth.py: counter differences\<close>

text \<open>
  \<^verbatim>\<open>
  def safe_diff(current, previous):
      if current < previous:
          return current
      return current - previous
  \<close>
\<close>

definition safe_diff :: "int \<Rightarrow> int \<Rightarrow> int" where
  "safe_diff current previous = (if current < previous then current else current - previous)"

definition INTERVAL :: int where
  "INTERVAL = 1"

text \<open>
  The rate of one counter in \<^verbatim>\<open>poll_loop\<close>: \<^verbatim>\<open>safe_diff(cur.bytes_recv, prev.bytes_recv) / INTERVAL\<close>.
  The interval is a parameter here; the module sets it to \<open>INTERVAL\<close>.
\<close>

definition counter_rate :: "int \<Rightarrow> int \<Rightarrow> int \<Rightarrow> py_error + rat" where
  "counter_rate interval prev cur =
     (if interval = 0 then Inl ZeroDivisionError
      else Inr (truediv (safe_diff cur prev) interval))"

record counters =
  bytes_recv :: int
  bytes_sent :: int

definition poll_rates :: "counters \<Rightarrow> counters \<Rightarrow> (py_error + rat) \<times> (py_error + rat)" where
  "poll_rates prev cur =
     (counter_rate INTERVAL (bytes_recv prev) (bytes_recv cur),
      counter_rate INTERVAL (bytes_sent prev) (bytes_sent cur))"

text \<open>\<^verbatim>\<open>monitor_bandwidth_rich\<close> subtracts the counters directly:
  \<^verbatim>\<open>dl = (cur.bytes_recv - prev.bytes_recv) / INTERVAL\<close>.\<close>

definition rich_rate :: "int \<Rightarrow> int \<Rightarrow> rat" where
  "rich_rate prev cur = truediv (cur - prev) 1"

section \<open>bandwidth.py: the chart renderer\<close>

text \<open>
  \<^verbatim>\<open>
  def render_chart_precise(series, width, height):
      if not series:
          return ""
      data = list(series)
      n = len(data)
      if n == 1:
          data = [data[0], data[0]]
          n = 2
      if n > width:
          step = n / width if width else 1
          mapped = []
          for i in range(width):
              start = int(i * step)
              end = int((i + 1) * step)
              chunk = data[start:end]
              mapped.append(sum(chunk) / len(chunk))
          data = mapped
      elif n < width:
          pad = [data[-1]] * (width - n)
          data = data + pad
      if data:
          lo = min(data)
          hi = max(data)
          span = hi - lo or 1
      else:
          span = 1
      rows = [[" " for _ in range(width)] for _ in range(height)]
      for x, val in enumerate(data):
          y = int((val - lo) / span * (height - 1))
          y = height - 1 - y
          rows[y][x] = FULL_BLOCK
      return "\n".join("".join(r) for r in rows)
  \<close>
  The series is a sequence of floats. The characters of the result are the space, the full
  block (written \<^verbatim>\<open>FULL_BLOCK\<close> above, U+2588 in the source) and the newline.
\<close>

datatype glyph = Space | FullBlock | Newline

text \<open>A slice \<^verbatim>\<open>xs[a:b]\<close>: a negative bound counts from the end, and both are clamped.\<close>

definition clamp_index :: "nat \<Rightarrow> int \<Rightarrow> nat" where
  "clamp_index n i = nat (min (int n) (max 0 (if i < 0 then i + int n else i)))"

definition py_slice :: "'a list \<Rightarrow> int \<Rightarrow> int \<Rightarrow> 'a list" where
  "py_slice xs a b =
     (let s = clamp_index (length xs) a; e = clamp_index (length xs) b
      in take (e - s) (drop s xs))"

text \<open>\<^verbatim>\<open>range(n)\<close>, empty when \<open>n \<le> 0\<close>.\<close>

definition py_range :: "int \<Rightarrow> int list" where
  "py_range n = [0..n - 1]"

text \<open>\<^verbatim>\<open>sum(chunk)\<close> adds from the left, starting at 0 and rounding each sum (CPython
  from 3.12 on compensates the rounding errors; the two agree wherever the sums are exact);
  \<^verbatim>\<open>sum(chunk) / len(chunk)\<close> raises on an empty chunk.\<close>

definition fsum :: "rat list \<Rightarrow> rat" where
  "fsum xs = foldl fadd 0 xs"

definition chunk_mean :: "rat list \<Rightarrow> py_error + rat" where
  "chunk_mean chunk =
     (if chunk = [] then Inl ZeroDivisionError
      else Inr (fdiv (fsum chunk) (of_pyint (int (length chunk)))))"

text \<open>The body of the loop \<^verbatim>\<open>for i in range(width)\<close>, and the loop, which appends one
  mean per index.\<close>

definition bucket :: "rat list \<Rightarrow> rat \<Rightarrow> int \<Rightarrow> rat list" where
  "bucket data step i =
     (let start = py_int (fmul (of_pyint i) step);
          stop = py_int (fmul (of_pyint (i + 1)) step)
      in py_slice data start stop)"

fun compress :: "rat list \<Rightarrow> rat \<Rightarrow> int list \<Rightarrow> py_error + rat list" where
  "compress data step [] = Inr []"
| "compress data step (i # rest) =
     (case chunk_mean (bucket data step i) of
        Inl e \<Rightarrow> Inl e
      | Inr m \<Rightarrow> (case compress data step rest of Inl e \<Rightarrow> Inl e | Inr ms \<Rightarrow> Inr (m # ms)))"

text \<open>The first half of the function, from \<^verbatim>\<open>data = list(series)\<close> to the padding. The
  renderer calls it on a non-empty series only; \<^verbatim>\<open>data[-1]\<close> on an empty one raises.\<close>

definition normalize_width :: "rat list \<Rightarrow> int \<Rightarrow> py_error + rat list" where
  "normalize_width series width =
     (let data = (if length series = 1 then [series ! 0, series ! 0] else series);
          n = int (length data)
      in if width < n then
           compress data (if width \<noteq> 0 then truediv n width else 1) (py_range width)
         else if n < width then
           (if data = [] then Inl IndexError
            else Inr (data @ replicate (nat (width - n)) (last data)))
         else Inr data)"

text \<open>The second half. The rows are built by a comprehension, so they are distinct lists and
  a store into one leaves the others as they are. An index \<open>y\<close> below zero counts from the
  last row, as Python's does; out of range it raises.\<close>

definition blank_rows :: "int \<Rightarrow> int \<Rightarrow> glyph list list" where
  "blank_rows width height = replicate (nat height) (replicate (nat width) Space)"

definition py_index :: "nat \<Rightarrow> int \<Rightarrow> py_error + nat" where
  "py_index n i =
     (let j = (if i < 0 then i + int n else i)
      in if 0 \<le> j \<and> j < int n then Inr (nat j) else Inl IndexError)"

definition set_cell :: "glyph list list \<Rightarrow> int \<Rightarrow> nat \<Rightarrow> py_error + glyph list list" where
  "set_cell rows y x =
     (case py_index (length rows) y of
        Inl e \<Rightarrow> Inl e
      | Inr r \<Rightarrow>
          if x < length (rows ! r) then Inr (rows[r := (rows ! r)[x := FullBlock]])
          else Inl IndexError)"

definition row_of :: "rat \<Rightarrow> rat \<Rightarrow> int \<Rightarrow> rat \<Rightarrow> int" where
  "row_of lo spn height val =
     (let y = py_int (fmul (fdiv (fsub val lo) spn) (of_pyint (height - 1)))
      in height - 1 - y)"

fun draw :: "rat \<Rightarrow> rat \<Rightarrow> int \<Rightarrow> nat \<Rightarrow> rat list \<Rightarrow> glyph list list
    \<Rightarrow> py_error + glyph list list" where
  "draw lo spn height x [] rows = Inr rows"
| "draw lo spn height x (val # vals) rows =
     (case set_cell rows (row_of lo spn height val) x of
        Inl e \<Rightarrow> Inl e
      | Inr rows' \<Rightarrow> draw lo spn height (Suc x) vals rows')"

definition span_of :: "rat list \<Rightarrow> rat" where
  "span_of data = (let d = fsub (Max (set data)) (Min (set data)) in if d = 0 then 1 else d)"


definition plot_rows :: "rat list \<Rightarrow> int \<Rightarrow> int \<Rightarrow> py_error + glyph list list" where
  "plot_rows data width height =
     (if data = [] then Inr (blank_rows width height)
      else draw (Min (set data)) (span_of data) height 0 data (blank_rows width height))"

text \<open>\<^verbatim>\<open>"\n".join("".join(r) for r in rows)\<close>\<close>

fun join_rows :: "glyph list list \<Rightarrow> glyph list" where
  "join_rows [] = []"
| "join_rows [r] = r"
| "join_rows (r # rs) = r @ Newline # join_rows rs"

definition render_chart_precise :: "rat list \<Rightarrow> int \<Rightarrow> int \<Rightarrow> py_error + glyph list" where
  "render_chart_precise series width height =
     (if series = [] then Inr []
      else case normalize_width series width of
        Inl e \<Rightarrow> Inl e
      | Inr data \<Rightarrow>
          (case plot_rows data width height of
             Inl e \<Rightarrow> Inl e
           | Inr rows \<Rightarrow> Inr (join_rows rows)))"

section \<open>pingmon.py: probes and statistics\<close>

text \<open>
  What \<^verbatim>\<open>ping(host, count=1, timeout=timeout, verbose=False)\<close> of \<^verbatim>\<open>pythonping\<close> can do:
  raise, or return a response with its \<^verbatim>\<open>success()\<close>, its \<^verbatim>\<open>rtt_avg_ms\<close> and, when the
  attribute is there, its \<^verbatim>\<open>ttl\<close>.
  \<^verbatim>\<open>
  def do_ping(host, timeout=2):
      try:
          response = ping(host, count=1, timeout=timeout, verbose=False)
          if response.success():
              latency_ms = response.rtt_avg_ms
              ttl = getattr(response, 'ttl', 0)
              return (latency_ms, ttl, True)
      except Exception as e:
          pass
      return (0, 0, False)
  \<close>
\<close>

datatype ping_outcome = Raised | Response bool rat "int option"

fun do_ping :: "ping_outcome \<Rightarrow> rat \<times> int \<times> bool" where
  "do_ping Raised = (0, 0, False)"
| "do_ping (Response success rtt_avg_ms ttl) =
     (if success then (rtt_avg_ms, (case ttl of None \<Rightarrow> 0 | Some t \<Rightarrow> t), True)
      else (0, 0, False))"

text \<open>\<^verbatim>\<open>float('inf')\<close>, the first value of \<^verbatim>\<open>stats['min']\<close>, and \<^verbatim>\<open>min(stats['min'], latency)\<close>.\<close>

datatype ext = Finite rat | Infinity

fun ext_min :: "ext \<Rightarrow> rat \<Rightarrow> ext" where
  "ext_min Infinity latency = Finite latency"
| "ext_min (Finite m) latency = Finite (min m latency)"

text \<open>\<^verbatim>\<open>deque(maxlen=cap).append(x)\<close>: the oldest entry leaves a full deque. The bound is a
  natural number: \<^verbatim>\<open>deque\<close> refuses a negative one when it is built, before any loop runs.\<close>

definition deque_append :: "nat \<Rightarrow> 'a list \<Rightarrow> 'a \<Rightarrow> 'a list" where
  "deque_append cap xs x = (let ys = xs @ [x] in drop (length ys - cap) ys)"

text \<open>\<^verbatim>\<open>statistics.mean\<close> rounds the exact mean once.\<close>

definition mean :: "rat list \<Rightarrow> rat" where
  "mean xs = fl (sum_list xs / of_nat (length xs))"

text \<open>
  The state of \<^verbatim>\<open>monitor_ping_advanced\<close>: the dictionary \<^verbatim>\<open>stats\<close>, the deque
  \<^verbatim>\<open>history_latency\<close> and the flag \<^verbatim>\<open>running\<close>. \<^verbatim>\<open>monitor_ping_basic\<close> keeps the list
  \<^verbatim>\<open>latencies\<close> beside \<^verbatim>\<open>stats\<close>, and has \<^verbatim>\<open>stats['avg']\<close> and \<^verbatim>\<open>history_ttl\<close> in addition.
\<close>

record monitor =
  sent :: int
  received :: int
  lost :: int
  min_s :: ext
  max_s :: rat
  latencies :: "rat list"
  history_latency :: "rat list"
  running :: bool

record basic_monitor = monitor +
  avg :: rat
  history_ttl :: "int list"

definition init_advanced :: monitor where
  "init_advanced =
     \<lparr>sent = 0, received = 0, lost = 0, min_s = Infinity, max_s = 0, latencies = [],
      history_latency = [], running = True\<rparr>"

definition init_basic :: basic_monitor where
  "init_basic =
     \<lparr>sent = 0, received = 0, lost = 0, min_s = Infinity, max_s = 0, latencies = [],
      history_latency = [], running = True, avg = 0, history_ttl = []\<rparr>"

text \<open>
  One pass of the loop of \<^verbatim>\<open>poll_loop\<close> in \<^verbatim>\<open>monitor_ping_advanced\<close>, up to the display:
  \<^verbatim>\<open>
  latency, ttl, success = do_ping(host)
  stats['sent'] += 1
  if success:
      stats['received'] += 1
      stats['min'] = min(stats['min'], latency)
      stats['max'] = max(stats['max'], latency)
      stats['latencies'].append(latency)
      history_latency.append(latency)
  else:
      stats['lost'] += 1
      history_latency.append(0)
  \<close>
  \<open>cap\<close> is \<^verbatim>\<open>HISTORY_POINTS\<close>, the \<^verbatim>\<open>maxlen\<close> of the deques.
\<close>

definition tick_advanced :: "nat \<Rightarrow> ping_outcome \<Rightarrow> monitor \<Rightarrow> monitor" where
  "tick_advanced cap p s =
     (case do_ping p of (latency, ttl, success) \<Rightarrow>
        let s1 = s\<lparr>sent := sent s + 1\<rparr>
        in if success then
             s1\<lparr>received := received s1 + 1,
                min_s := ext_min (min_s s1) latency,
                max_s := max (max_s s1) latency,
                latencies := latencies s1 @ [latency],
                history_latency := deque_append cap (history_latency s1) latency\<rparr>
           else
             s1\<lparr>lost := lost s1 + 1,
                history_latency := deque_append cap (history_latency s1) 0\<rparr>)"

text \<open>
  The same pass in \<^verbatim>\<open>monitor_ping_basic\<close>:
  \<^verbatim>\<open>
  if success:
      stats['received'] += 1
      stats['min'] = min(stats['min'], latency)
      stats['max'] = max(stats['max'], latency)
      latencies.append(latency)
      stats['avg'] = mean(latencies) if latencies else 0
      history_latency.append(latency)
      history_ttl.append(ttl if ttl > 0 else 64)
  else:
      stats['lost'] += 1
      history_latency.append(0)
      history_ttl.append(0)
  \<close>
\<close>

definition tick_basic :: "nat \<Rightarrow> ping_outcome \<Rightarrow> basic_monitor \<Rightarrow> basic_monitor" where
  "tick_basic cap p s =
     (case do_ping p of (latency, ttl, success) \<Rightarrow>
        let s1 = s\<lparr>sent := sent s + 1\<rparr>
        in if success then
             let lats = latencies s1 @ [latency]
             in s1\<lparr>received := received s1 + 1,
                   min_s := ext_min (min_s s1) latency,
                   max_s := max (max_s s1) latency,
                   latencies := lats,
                   avg := (if lats \<noteq> [] then mean lats else 0),
                   history_latency := deque_append cap (history_latency s1) latency,
                   history_ttl := deque_append cap (history_ttl s1) (if 0 < ttl then ttl else 64)\<rparr>
           else
             s1\<lparr>lost := lost s1 + 1,
                history_latency := deque_append cap (history_latency s1) 0,
                history_ttl := deque_append cap (history_ttl s1) 0\<rparr>)"

text \<open>
  The loops, \<^verbatim>\<open>while running:\<close> and \<^verbatim>\<open>while running["val"]:\<close>. Each pass meets one
  outcome of the probe, and the flag is cleared from outside (a signal, the key \<^verbatim>\<open>q\<close>) during
  the pass or not; the loop reads the flag before the next pass. The list holds what the
  passes meet, in order.
\<close>

fun loop_advanced :: "nat \<Rightarrow> (ping_outcome \<times> bool) list \<Rightarrow> monitor \<Rightarrow> monitor" where
  "loop_advanced cap [] s = s"
| "loop_advanced cap ((p, quit) # rest) s =
     (if running s
      then loop_advanced cap rest ((tick_advanced cap p s)\<lparr>running := \<not> quit\<rparr>)
      else s)"

fun loop_basic :: "nat \<Rightarrow> (ping_outcome \<times> bool) list \<Rightarrow> basic_monitor \<Rightarrow> basic_monitor" where
  "loop_basic cap [] s = s"
| "loop_basic cap ((p, quit) # rest) s =
     (if running s
      then loop_basic cap rest ((tick_basic cap p s)\<lparr>running := \<not> quit\<rparr>)
      else s)"

text \<open>
  What the display reports after a pass:
  \<^verbatim>\<open>packet_loss = (stats['lost'] / stats['sent'] * 100) if stats['sent'] > 0 else 0\<close> and
  \<^verbatim>\<open>std = stdev(latencies) if len(latencies) > 1 else 0\<close>, with \<^verbatim>\<open>statistics.stdev\<close> a
  parameter. Both monitors print the standard deviation only when \<^verbatim>\<open>stats['received'] > 0\<close>.
\<close>

definition packet_loss :: "'a monitor_scheme \<Rightarrow> rat" where
  "packet_loss s = (if 0 < sent s then fmul (truediv (lost s) (sent s)) (of_pyint 100) else 0)"

definition std :: "(rat list \<Rightarrow> rat) \<Rightarrow> 'a monitor_scheme \<Rightarrow> rat" where
  "std stdev s = (if 1 < length (latencies s) then stdev (latencies s) else 0)"

text \<open>The passes that succeeded and failed among the outcomes met.\<close>

definition succeeded :: "ping_outcome \<Rightarrow> bool" where
  "succeeded p = snd (snd (do_ping p))"

definition failed :: "ping_outcome \<Rightarrow> bool" where
  "failed p = (\<not> succeeded p)"

text \<open>The outcomes that the loop gets to: those up to the first pass during which the flag
  is cleared.\<close>

fun processed :: "(ping_outcome \<times> bool) list \<Rightarrow> ping_outcome list" where
  "processed [] = []"
| "processed ((p, quit) # rest) = p # (if quit then [] else processed rest)"

section \<open>Reference definitions\<close>

text \<open>The grid with one full block in each column \<open>c\<close>, in the row \<open>row c\<close>.\<close>

definition grid_of :: "(nat \<Rightarrow> int) \<Rightarrow> nat \<Rightarrow> nat \<Rightarrow> glyph list list" where
  "grid_of row w h =
     map (\<lambda>r. map (\<lambda>c. if row c = int r then FullBlock else Space) [0..<w]) [0..<h]"

text \<open>
  The specification's words for the renderer, in exact arithmetic: the bucket of column \<open>i\<close>
  is \<open>data[floor(i * n/width) .. floor((i+1) * n/width))\<close> and the column is its arithmetic
  mean; a value is drawn in the row \<open>height - 1 - round((v - lo) / span * (height - 1))\<close>;
  a flat series is a single centered row; an empty input gives a blank grid.
\<close>

definition spec_bucket :: "rat list \<Rightarrow> int \<Rightarrow> int \<Rightarrow> rat list" where
  "spec_bucket data width i =
     py_slice data \<lfloor>of_int i * (of_nat (length data) / of_int width :: rat)\<rfloor>
       \<lfloor>of_int (i + 1) * (of_nat (length data) / of_int width :: rat)\<rfloor>"

definition spec_mean :: "rat list \<Rightarrow> rat" where
  "spec_mean xs = sum_list xs / of_nat (length xs)"

definition spec_compress :: "rat list \<Rightarrow> int \<Rightarrow> rat list" where
  "spec_compress data width = map (\<lambda>i. spec_mean (spec_bucket data width i)) (py_range width)"


definition spec_flat_rows :: "int \<Rightarrow> int \<Rightarrow> glyph list list" where
  "spec_flat_rows width height =
     (blank_rows width height)[nat ((height - 1) div 2) := replicate (nat width) FullBlock]"

definition spec_blank_grid :: "int \<Rightarrow> int \<Rightarrow> glyph list" where
  "spec_blank_grid width height = join_rows (blank_rows width height)"

section \<open>Properties of the rounding\<close>

lemma round_half_even_of_int: "round_half_even (of_int k) = k"
  by (simp add: round_half_even_def)

lemma round_half_even_floor: "\<lfloor>x\<rfloor> \<le> round_half_even x \<and> round_half_even x \<le> \<lfloor>x\<rfloor> + 1"
  by (simp add: round_half_even_def Let_def)

lemma round_half_even_mono:
  assumes "x \<le> y" shows "round_half_even x \<le> round_half_even y"
proof (cases "\<lfloor>x\<rfloor> = \<lfloor>y\<rfloor>")
  case True
  with assms show ?thesis by (auto simp: round_half_even_def Let_def)
next
  case False
  with assms have "\<lfloor>x\<rfloor> + 1 \<le> \<lfloor>y\<rfloor>" using floor_mono [OF assms] by linarith
  with round_half_even_floor [of x] round_half_even_floor [of y] show ?thesis by linarith
qed

lemma pow2_pos: "(0::rat) < 2 powi e"
  by (simp add: power_int_def)

lemma pow2_mono: "a \<le> b \<Longrightarrow> (2::rat) powi a \<le> 2 powi b"
  by (rule power_int_increasing) simp_all

lemma pow2_less_cancel: "(2::rat) powi a < 2 powi b \<Longrightarrow> a < b"
  using pow2_mono [of b a] by (cases "a < b") auto

lemma pow2_add: "(2::rat) powi (a + b) = 2 powi a * 2 powi b"
  by (simp add: power_int_add)

lemma bitlen_int_bounds:
  assumes "0 < (k::int)"
  shows "2 powi (bitlen k - 1) \<le> (of_int k :: rat)" and "(of_int k :: rat) < 2 powi bitlen k"
proof -
  have b: "0 < bitlen k" using assms bitlen_nonneg [of k] bitlen_eq_zero_iff [of k] by linarith
  have "2 ^ nat (bitlen k - 1) \<le> k" "k < 2 ^ nat (bitlen k)"
    using bitlen_bounds [OF assms] by simp_all
  then have "(of_int (2 ^ nat (bitlen k - 1)) :: rat) \<le> of_int k" "(of_int k :: rat) < of_int (2 ^ nat (bitlen k))"
    by (simp_all only: of_int_le_iff of_int_less_iff)
  then show "2 powi (bitlen k - 1) \<le> (of_int k :: rat)" and "(of_int k :: rat) < 2 powi bitlen k"
    using b by (simp_all add: power_int_def)
qed

lemma binade_bounds:
  assumes "x \<noteq> 0"
  shows "2 powi binade x \<le> \<bar>x\<bar>" and "\<bar>x\<bar> < 2 powi (binade x + 1)"
proof -
  obtain p q where pq: "quotient_of \<bar>x\<bar> = (p, q)" by (cases "quotient_of \<bar>x\<bar>")
  have q: "0 < q" using quotient_of_denom_pos [OF pq] .
  have x: "\<bar>x\<bar> = of_int p / of_int q" using quotient_of_div [OF pq] .
  have "0 < \<bar>x\<bar>" using assms by simp
  with x q have p: "0 < p" by (simp add: zero_less_divide_iff)
  define d where "d = bitlen p - bitlen q"
  have bp: "2 powi (bitlen p - 1) \<le> (of_int p :: rat)" "(of_int p :: rat) < 2 powi bitlen p"
    using bitlen_int_bounds [OF p] by simp_all
  have bq: "2 powi (bitlen q - 1) \<le> (of_int q :: rat)" "(of_int q :: rat) < 2 powi bitlen q"
    using bitlen_int_bounds [OF q] by simp_all
  have qpos: "(0::rat) < of_int q" using q by simp
  have "2 powi (d - 1) * (of_int q :: rat) < 2 powi (d - 1) * 2 powi bitlen q"
    using bq(2) pow2_pos [of "d - 1"] by simp
  also have "\<dots> = 2 powi (bitlen p - 1)"
    by (simp add: d_def flip: pow2_add)
  also have "\<dots> \<le> of_int p" by (rule bp(1))
  finally have lo: "2 powi (d - 1) < \<bar>x\<bar>"
    using qpos by (simp add: x pos_less_divide_eq)
  have "(of_int p :: rat) < 2 powi bitlen p" by (rule bp(2))
  also have "\<dots> = 2 powi (d + 1) * 2 powi (bitlen q - 1)"
    by (simp add: d_def flip: pow2_add)
  also have "\<dots> \<le> 2 powi (d + 1) * of_int q"
    using bq(1) pow2_pos [of "d + 1"] by simp
  finally have hi: "\<bar>x\<bar> < 2 powi (d + 1)"
    using qpos by (simp add: x pos_divide_less_eq)
  have b: "binade x = (if 2 powi d \<le> \<bar>x\<bar> then d else d - 1)"
    by (simp add: binade_def pq d_def Let_def)
  show "2 powi binade x \<le> \<bar>x\<bar>" using lo by (simp add: b)
  show "\<bar>x\<bar> < 2 powi (binade x + 1)" using hi by (auto simp: b)
qed


lemma fl_zero: "fl 0 = 0"
  by (simp add: fl_def)

lemma fl_unfold:
  "x \<noteq> 0 \<Longrightarrow>
   fl x = of_int (round_half_even (x / 2 powi (binade x - 52))) * 2 powi (binade x - 52)"
  by (simp add: fl_def Let_def)

lemma fl_pos_bounds:
  assumes "0 < x"
  shows "2 powi binade x \<le> fl x" and "fl x \<le> 2 powi (binade x + 1)"
proof -
  define u :: rat where "u = 2 powi (binade x - 52)"
  have u: "0 < u" by (simp add: u_def pow2_pos)
  have f: "fl x = of_int (round_half_even (x / u)) * u"
    using assms by (simp add: fl_unfold u_def)
  have x0: "x \<noteq> 0" "\<bar>x\<bar> = x" using assms by simp_all
  have e1: "2 powi binade x = of_int (2 ^ 52) * u"
    by (simp add: u_def power_int_diff)
  have e2: "2 powi (binade x + 1) = of_int (2 ^ 53) * u"
    by (simp add: u_def power_int_diff power_int_add)
  have "of_int (2 ^ 52) \<le> x / u"
    using binade_bounds(1) [OF x0(1)] u by (simp add: x0 e1 pos_le_divide_eq)
  then have "round_half_even (of_int (2 ^ 52)) \<le> round_half_even (x / u)"
    by (rule round_half_even_mono)
  then have "(of_int (2 ^ 52) :: rat) \<le> of_int (round_half_even (x / u))"
    unfolding round_half_even_of_int of_int_le_iff .
  then show "2 powi binade x \<le> fl x"
    unfolding e1 f using u by (rule mult_right_mono [OF _ less_imp_le])
  have "x / u \<le> of_int (2 ^ 53)"
    using binade_bounds(2) [OF x0(1)] u by (simp add: x0 e2 pos_divide_le_eq)
  then have "round_half_even (x / u) \<le> round_half_even (of_int (2 ^ 53))"
    by (rule round_half_even_mono)
  then have "(of_int (round_half_even (x / u)) :: rat) \<le> of_int (2 ^ 53)"
    unfolding round_half_even_of_int of_int_le_iff .
  then show "fl x \<le> 2 powi (binade x + 1)"
    unfolding e2 f using u by (rule mult_right_mono [OF _ less_imp_le])
qed

lemma fl_pos: "0 < x \<Longrightarrow> 0 < fl x"
  using fl_pos_bounds(1) [of x] pow2_pos [of "binade x"] by linarith

lemma fl_nonneg: "0 \<le> x \<Longrightarrow> 0 \<le> fl x"
  using fl_pos [of x] by (cases "x = 0") (simp_all add: fl_zero)



lemma fl_of_nat_exact:
  assumes "0 \<le> k" "k < 2 ^ 53"
  shows "fl (of_int k) = of_int k"
proof (cases "k = 0")
  case True
  then show ?thesis by (simp add: fl_zero)
next
  case False
  define x :: rat where "x = of_int k"
  define e where "e = binade x"
  have x: "0 < x" "x \<noteq> 0" "\<bar>x\<bar> = x" using assms False by (simp_all add: x_def)
  have "2 powi e \<le> x" using binade_bounds(1) [OF x(2)] by (simp add: e_def x)
  also have "x < 2 powi 53"
  proof -
    have "(of_int k :: rat) < of_int (2 ^ 53)" using assms(2) by (simp only: of_int_less_iff)
    then show ?thesis by (simp add: x_def)
  qed
  finally have "e < 53" by (rule pow2_less_cancel)
  then have e: "e \<le> 52" by simp
  define m where "m = k * 2 ^ nat (52 - e)"
  have u: "2 powi (e - 52) = 1 / (2::rat) ^ nat (52 - e)"
  proof -
    have "(2::rat) powi (e - 52) = 2 powi (- (52 - e))" by simp
    also have "\<dots> = 1 / 2 powi (52 - e)" by (rule power_int_minus_divide)
    also have "(2::rat) powi (52 - e) = 2 ^ nat (52 - e)"
      using e by (simp add: power_int_def)
    finally show ?thesis .
  qed
  have "x / 2 powi (e - 52) = of_int m"
    by (simp add: u m_def x_def)
  then have "fl x = of_int m * 2 powi (e - 52)"
    using x by (simp add: fl_unfold e_def round_half_even_of_int)
  also have "\<dots> = x" by (simp add: u m_def x_def)
  finally show ?thesis by (simp add: x_def)
qed


section \<open>Counter differences\<close>

lemma truediv_nonneg: "0 \<le> a \<Longrightarrow> 0 < b \<Longrightarrow> 0 \<le> truediv a b"
  by (simp add: truediv_def fl_nonneg)

lemma safe_diff_nonneg: "0 \<le> previous \<Longrightarrow> 0 \<le> current \<Longrightarrow> 0 \<le> safe_diff current previous"
  by (simp add: safe_diff_def)

lemma truediv_one: "0 \<le> a \<Longrightarrow> a < 2 ^ 53 \<Longrightarrow> truediv a 1 = of_int a"
  by (simp add: truediv_def fl_of_nat_exact)

text \<open>
  Claim C2. For non-negative counter readings and a positive interval \<open>t\<close>, the rate is
  \<open>(cur - prev) / t\<close> when the counter did not go back and \<open>cur / t\<close> when it did (the
  counter restarted), with Python's division of two integers; it is never negative. The
  loop of \<^verbatim>\<open>monitor_bandwidth\<close> uses it with \<open>t = INTERVAL = 1\<close>.
\<close>

theorem counter_rate_correct:
  assumes "0 \<le> prev" and "0 \<le> cur" and "0 < t"
  shows "counter_rate t prev cur =
           Inr (if prev \<le> cur then truediv (cur - prev) t else truediv cur t)
         \<and> (\<exists>r. counter_rate t prev cur = Inr r \<and> 0 \<le> r)
         \<and> (safe_diff cur prev < 2 ^ 53 \<longrightarrow>
               counter_rate INTERVAL prev cur = Inr (of_int (safe_diff cur prev)))
         \<and> poll_rates p c
             = (counter_rate INTERVAL (bytes_recv p) (bytes_recv c),
                counter_rate INTERVAL (bytes_sent p) (bytes_sent c))"
proof -
  have 1: "counter_rate t prev cur =
             Inr (if prev \<le> cur then truediv (cur - prev) t else truediv cur t)"
    using assms(3) by (simp add: counter_rate_def safe_diff_def)
  have d: "0 \<le> safe_diff cur prev" using assms(1,2) by (rule safe_diff_nonneg)
  have "0 \<le> truediv (safe_diff cur prev) t"
    using d assms(3) by (rule truediv_nonneg)
  then have 2: "\<exists>r. counter_rate t prev cur = Inr r \<and> 0 \<le> r"
    using assms(3) by (simp add: counter_rate_def)
  have 3: "counter_rate INTERVAL prev cur = Inr (of_int (safe_diff cur prev))"
    if "safe_diff cur prev < 2 ^ 53"
    using d that by (simp add: counter_rate_def INTERVAL_def truediv_one)
  have 4: "poll_rates p c
             = (counter_rate INTERVAL (bytes_recv p) (bytes_recv c),
                counter_rate INTERVAL (bytes_sent p) (bytes_sent c))"
    by (simp add: poll_rates_def)
  from 1 2 3 4 show ?thesis by blast
qed

theorem counter_rate_correct_witness:
  "(0::int) \<le> 100 \<and> (0::int) \<le> 40 \<and> (0::int) < 1 \<and> safe_diff 40 100 < 2 ^ 53
   \<and> counter_rate 1 100 40 = Inr (truediv 40 1)
   \<and> (\<exists>r. counter_rate 1 100 40 = Inr r \<and> 0 \<le> r)
   \<and> counter_rate INTERVAL 100 40 = Inr 40"
proof -
  have h: "(0::int) \<le> 100" "(0::int) \<le> 40" "(0::int) < 1" by simp_all
  have k: "safe_diff 40 100 < 2 ^ 53" "safe_diff 40 100 = 40" by (simp_all add: safe_diff_def)
  have i: "(if (100::int) \<le> 40 then truediv (40 - 100) 1 else truediv 40 1) = truediv 40 1"
    by simp
  have o: "rat_of_int 40 = 40" by simp
  note t = counter_rate_correct [OF h, of "\<lparr>bytes_recv = 100, bytes_sent = 100\<rparr>"
      "\<lparr>bytes_recv = 40, bytes_sent = 40\<rparr>", unfolded k(2) i o]
  show ?thesis using h k(1) t unfolding k(2) by blast
qed

text \<open>The loop of \<^verbatim>\<open>monitor_bandwidth_rich\<close> does not go through \<^verbatim>\<open>safe_diff\<close>: after a
  restart of the counter its rate is negative.\<close>

lemma rich_rate_negative: "rich_rate 100 40 = - 60"
  by code_simp

section \<open>Width normalisation\<close>

text \<open>
  Claim C4. A series of length \<open>n\<close> with \<open>1 \<le> n < width\<close>: a lone value is doubled, then the
  last value is repeated on the right until the length is \<open>width\<close>; the series itself is
  the beginning of the result. \<open>[3, 7]\<close> at width 5 gives \<open>[3, 7, 7, 7, 7]\<close>.
\<close>

theorem normalize_width_pads:
  assumes "1 \<le> length series" and "int (length series) < width"
  shows "(let data = (if length series = 1 then series @ series else series)
          in normalize_width series width
               = Inr (data @ replicate (nat width - length data) (last data))
             \<and> last data = last series)
         \<and> (\<exists>out. normalize_width series width = Inr out \<and> length out = nat width
               \<and> take (length series) out = series)
         \<and> normalize_width [3, 7] 5 = Inr [3, 7, 7, 7, 7]"
proof -
  obtain x xs where s: "series = x # xs" using assms(1) by (cases series) auto
  define data where "data = (if length series = 1 then series @ series else series)"
  have d0: "data = (if length series = 1 then [series ! 0, series ! 0] else series)"
    by (auto simp: data_def s)
  have ne: "data \<noteq> []" by (simp add: data_def s)
  have len: "int (length data) \<le> width" using assms(2) by (auto simp: data_def)
  have lst: "last data = last series" by (auto simp: data_def s)
  have n: "normalize_width series width
             = Inr (data @ replicate (nat width - length data) (last data))"
  proof (cases "int (length data) < width")
    case True
    then have "nat (width - int (length data)) = nat width - length data" by linarith
    with True ne show ?thesis
      unfolding normalize_width_def d0 [symmetric] Let_def by simp
  next
    case False
    with len have "int (length data) = width" by simp
    then show ?thesis
      unfolding normalize_width_def d0 [symmetric] Let_def by auto
  qed
  have l: "length (data @ replicate (nat width - length data) (last data)) = nat width"
    using len by simp
  have t: "take (length series) (data @ replicate (nat width - length data) (last data)) = series"
    by (auto simp: data_def)
  have e: "normalize_width [3, 7] 5 = Inr [3, 7, 7, 7, 7]"
    by (simp add: normalize_width_def numeral_eq_Suc)
  from n lst l t e show ?thesis unfolding data_def [symmetric] Let_def by blast
qed

theorem normalize_width_pads_witness:
  "(1::nat) \<le> length [4::rat] \<and> int (length [4::rat]) < 3
   \<and> normalize_width [4] 3 = Inr [4, 4, 4]
   \<and> (\<exists>out. normalize_width [4] 3 = Inr out \<and> length out = nat 3 \<and> take (length [4::rat]) out = [4])"
proof -
  have h: "1 \<le> length [4::rat]" "int (length [4::rat]) < 3" by simp_all
  show ?thesis using h normalize_width_pads [OF h] by (simp add: Let_def numeral_eq_Suc)
qed

text \<open>
  Claim C9. A series whose length is the width, and at least 2, comes back unchanged.
\<close>

theorem normalize_width_identity:
  assumes "int (length series) = width" and "2 \<le> length series"
  shows "normalize_width series width = Inr series"
  using assms by (simp add: normalize_width_def Let_def)

theorem normalize_width_identity_witness:
  "int (length [3::rat, 7, 5]) = 3 \<and> 2 \<le> length [3::rat, 7, 5]
   \<and> normalize_width [3, 7, 5] 3 = Inr [3, 7, 5]"
proof -
  have h: "int (length [3::rat, 7, 5]) = 3" "2 \<le> length [3::rat, 7, 5]" by simp_all
  show ?thesis using h normalize_width_identity [OF h] by simp
qed

theorem render_empty_counterexample:
  "render_chart_precise [] 3 2 = Inr []
   \<and> spec_blank_grid 3 2 = [Space, Space, Space, Newline, Space, Space, Space]
   \<and> render_chart_precise [] 3 2 \<noteq> Inr (spec_blank_grid 3 2)"
  by (simp add: render_chart_precise_def spec_blank_grid_def blank_rows_def numeral_eq_Suc)

lemma join_rows_empty_iff:
  "join_rows (replicate h (replicate w Space)) = [] \<longleftrightarrow> h = 0 \<or> (h = 1 \<and> w = 0)"
proof (cases h)
  case 0
  then show ?thesis by simp
next
  case (Suc k)
  then show ?thesis by (cases k) simp_all
qed

text \<open>
  Claim C6, as the code has it. For an empty series the renderer returns the empty string,
  whatever the width and the height. That is the blank grid of \<open>height\<close> rows and \<open>width\<close>
  columns only when the grid has no row, or one row of no column.
\<close>

theorem render_empty:
  "render_chart_precise [] width height = Inr []
   \<and> (render_chart_precise [] width height = Inr (spec_blank_grid width height)
        \<longleftrightarrow> height \<le> 0 \<or> (height = 1 \<and> width \<le> 0))"
proof -
  have "render_chart_precise [] width height = Inr (spec_blank_grid width height)
          \<longleftrightarrow> join_rows (replicate (nat height) (replicate (nat width) Space)) = []"
    by (auto simp: render_chart_precise_def spec_blank_grid_def blank_rows_def)
  also have "\<dots> \<longleftrightarrow> nat height = 0 \<or> (nat height = 1 \<and> nat width = 0)"
    by (rule join_rows_empty_iff)
  also have "\<dots> \<longleftrightarrow> height \<le> 0 \<or> (height = 1 \<and> width \<le> 0)"
    by auto
  finally show ?thesis by (simp add: render_chart_precise_def)
qed

section \<open>The ping monitors\<close>

lemma succeeded_simps:
  "succeeded Raised = False" "succeeded (Response ok rtt ttl) = ok"
  by (simp_all add: succeeded_def)



lemma tick_advanced_counters:
  "sent (tick_advanced cap p s) = sent s + 1"
  "received (tick_advanced cap p s) = received s + (if succeeded p then 1 else 0)"
  "lost (tick_advanced cap p s) = lost s + (if succeeded p then 0 else 1)"
  "latencies (tick_advanced cap p s) = latencies s @ (if succeeded p then [fst (do_ping p)] else [])"
  "running (tick_advanced cap p s) = running s"
  by (cases p; simp add: tick_advanced_def Let_def succeeded_def)+

lemma tick_basic_counters:
  "sent (tick_basic cap p s) = sent s + 1"
  "received (tick_basic cap p s) = received s + (if succeeded p then 1 else 0)"
  "lost (tick_basic cap p s) = lost s + (if succeeded p then 0 else 1)"
  "latencies (tick_basic cap p s) = latencies s @ (if succeeded p then [fst (do_ping p)] else [])"
  "running (tick_basic cap p s) = running s"
  by (cases p; simp add: tick_basic_def Let_def succeeded_def)+

lemma loop_advanced_stopped: "\<not> running s \<Longrightarrow> loop_advanced cap evs s = s"
  by (cases evs) auto

lemma loop_basic_stopped: "\<not> running s \<Longrightarrow> loop_basic cap evs s = s"
  by (cases evs) auto

lemma loop_advanced_counters:
  "running s \<Longrightarrow>
     sent (loop_advanced cap evs s) = sent s + int (length (processed evs))
   \<and> received (loop_advanced cap evs s)
       = received s + int (length (filter succeeded (processed evs)))
   \<and> lost (loop_advanced cap evs s) = lost s + int (length (filter failed (processed evs)))
   \<and> latencies (loop_advanced cap evs s)
       = latencies s @ map (\<lambda>p. fst (do_ping p)) (filter succeeded (processed evs))"
proof (induction evs arbitrary: s)
  case Nil
  then show ?case by simp
next
  case (Cons ev evs)
  obtain p quit where ev: "ev = (p, quit)" by (cases ev)
  show ?case
  proof (cases quit)
    case True
    then show ?thesis using Cons.prems
      by (simp add: ev loop_advanced_stopped tick_advanced_counters failed_def)
  next
    case False
    then show ?thesis
      using Cons.prems Cons.IH [of "(tick_advanced cap p s)\<lparr>running := True\<rparr>"]
      by (simp add: ev tick_advanced_counters failed_def)
  qed
qed

lemma loop_basic_counters:
  "running s \<Longrightarrow>
     sent (loop_basic cap evs s) = sent s + int (length (processed evs))
   \<and> received (loop_basic cap evs s)
       = received s + int (length (filter succeeded (processed evs)))
   \<and> lost (loop_basic cap evs s) = lost s + int (length (filter failed (processed evs)))
   \<and> latencies (loop_basic cap evs s)
       = latencies s @ map (\<lambda>p. fst (do_ping p)) (filter succeeded (processed evs))"
proof (induction evs arbitrary: s)
  case Nil
  then show ?case by simp
next
  case (Cons ev evs)
  obtain p quit where ev: "ev = (p, quit)" by (cases ev)
  show ?case
  proof (cases quit)
    case True
    then show ?thesis using Cons.prems
      by (simp add: ev loop_basic_stopped tick_basic_counters failed_def)
  next
    case False
    then show ?thesis
      using Cons.prems Cons.IH [of "(tick_basic cap p s)\<lparr>running := True\<rparr>"]
      by (simp add: ev tick_basic_counters failed_def)
  qed
qed

lemma filter_split_length:
  "length (filter succeeded ps) + length (filter failed ps) = length ps"
  by (induction ps) (auto simp: failed_def)

lemma loss_two_of_five: "fmul (truediv 2 5) (of_pyint 100) = 40"
  by code_simp



lemma deque_append_length: "length (deque_append cap xs x) = min cap (Suc (length xs))"
  by (auto simp: deque_append_def Let_def)


text \<open>
  Claim C10. After every pass \<open>sent = received + lost\<close>, in both monitors: a pass adds 1 to
  \<open>sent\<close> and 1 to exactly one of \<open>received\<close> (the probe succeeded) and \<open>lost\<close> (it failed),
  and \<open>sent\<close> counts the passes made. Nothing else in the loop writes the counters.
\<close>

theorem counters_balance:
  "sent (loop_advanced cap evs init_advanced)
     = received (loop_advanced cap evs init_advanced) + lost (loop_advanced cap evs init_advanced)
   \<and> sent (loop_basic cap evs init_basic)
     = received (loop_basic cap evs init_basic) + lost (loop_basic cap evs init_basic)
   \<and> sent (loop_advanced cap evs init_advanced) = int (length (processed evs))
   \<and> sent (loop_basic cap evs init_basic) = int (length (processed evs))
   \<and> sent (tick_advanced cap p s) = sent s + 1
   \<and> received (tick_advanced cap p s) = received s + (if succeeded p then 1 else 0)
   \<and> lost (tick_advanced cap p s) = lost s + (if succeeded p then 0 else 1)
   \<and> sent (tick_basic cap p b) = sent b + 1
   \<and> received (tick_basic cap p b) = received b + (if succeeded p then 1 else 0)
   \<and> lost (tick_basic cap p b) = lost b + (if succeeded p then 0 else 1)"
proof -
  have ra: "running init_advanced" and rb: "running init_basic"
    by (simp_all add: init_advanced_def init_basic_def)
  have z: "sent init_advanced = 0" "received init_advanced = 0" "lost init_advanced = 0"
    "sent init_basic = 0" "received init_basic = 0" "lost init_basic = 0"
    by (simp_all add: init_advanced_def init_basic_def)
  have n: "int (length (processed evs))
             = int (length (filter succeeded (processed evs)))
               + int (length (filter failed (processed evs)))"
    using filter_split_length [of "processed evs"] by simp
  show ?thesis
    using loop_advanced_counters [OF ra, of cap evs] loop_basic_counters [OF rb, of cap evs] n
    by (simp add: z tick_advanced_counters tick_basic_counters)
qed

text \<open>
  Claim C7. At every point of a session, in both monitors: the reported loss is
  \<open>lost / sent * 100\<close> when \<open>sent > 0\<close> and 0 otherwise, with \<open>lost = sent - received\<close>; the
  reported standard deviation is 0 when fewer than 2 probes have succeeded; and after 5
  probes of which 3 succeeded the loss is 40.
\<close>

theorem reported_statistics:
  "packet_loss (loop_advanced cap evs init_advanced)
     = (if 0 < sent (loop_advanced cap evs init_advanced)
        then fmul (truediv (lost (loop_advanced cap evs init_advanced))
                     (sent (loop_advanced cap evs init_advanced))) (of_pyint 100)
        else 0)
   \<and> packet_loss (loop_basic cap evs init_basic)
     = (if 0 < sent (loop_basic cap evs init_basic)
        then fmul (truediv (lost (loop_basic cap evs init_basic))
                     (sent (loop_basic cap evs init_basic))) (of_pyint 100)
        else 0)
   \<and> lost (loop_advanced cap evs init_advanced)
       = sent (loop_advanced cap evs init_advanced) - received (loop_advanced cap evs init_advanced)
   \<and> lost (loop_basic cap evs init_basic)
       = sent (loop_basic cap evs init_basic) - received (loop_basic cap evs init_basic)
   \<and> std stdev (loop_advanced cap evs init_advanced)
     = (if received (loop_advanced cap evs init_advanced) < 2 then 0
        else stdev (latencies (loop_advanced cap evs init_advanced)))
   \<and> std stdev (loop_basic cap evs init_basic)
     = (if received (loop_basic cap evs init_basic) < 2 then 0
        else stdev (latencies (loop_basic cap evs init_basic)))
   \<and> (sent (loop_advanced cap evs init_advanced) = 5
        \<and> received (loop_advanced cap evs init_advanced) = 3
        \<longrightarrow> packet_loss (loop_advanced cap evs init_advanced) = 40)
   \<and> (sent (loop_basic cap evs init_basic) = 5
        \<and> received (loop_basic cap evs init_basic) = 3
        \<longrightarrow> packet_loss (loop_basic cap evs init_basic) = 40)"
proof -
  have ra: "running init_advanced" and rb: "running init_basic"
    by (simp_all add: init_advanced_def init_basic_def)
  have z: "sent init_advanced = 0" "received init_advanced = 0" "lost init_advanced = 0"
    "latencies init_advanced = []"
    "sent init_basic = 0" "received init_basic = 0" "lost init_basic = 0"
    "latencies init_basic = []"
    by (simp_all add: init_advanced_def init_basic_def)
  define A where "A = loop_advanced cap evs init_advanced"
  define B where "B = loop_basic cap evs init_basic"
  have n: "int (length (processed evs))
             = int (length (filter succeeded (processed evs)))
               + int (length (filter failed (processed evs)))"
    using filter_split_length [of "processed evs"] by simp
  have a: "lost A = sent A - received A" "received A = int (length (latencies A))"
    using loop_advanced_counters [OF ra, of cap evs] n by (simp_all add: z A_def)
  have b: "lost B = sent B - received B" "received B = int (length (latencies B))"
    using loop_basic_counters [OF rb, of cap evs] n by (simp_all add: z B_def)
  have pa: "packet_loss A = (if 0 < sent A then fmul (truediv (lost A) (sent A)) (of_pyint 100) else 0)"
    by (simp add: packet_loss_def)
  have pb: "packet_loss B = (if 0 < sent B then fmul (truediv (lost B) (sent B)) (of_pyint 100) else 0)"
    by (simp add: packet_loss_def)
  have sa: "std stdev A = (if received A < 2 then 0 else stdev (latencies A))"
    using a(2) by (auto simp: std_def)
  have sb: "std stdev B = (if received B < 2 then 0 else stdev (latencies B))"
    using b(2) by (auto simp: std_def)
  have ea: "sent A = 5 \<and> received A = 3 \<longrightarrow> packet_loss A = 40"
    using a(1) by (auto simp: pa loss_two_of_five)
  have eb: "sent B = 5 \<and> received B = 3 \<longrightarrow> packet_loss B = 40"
    using b(1) by (auto simp: pb loss_two_of_five)
  from pa pb a(1) b(1) sa sb ea eb show ?thesis unfolding A_def B_def by blast
qed







theorem reported_statistics_witness:
  "sent (loop_advanced 10 [(Raised, False), (Response True 10 None, False),
          (Response True 12 (Some 3), False), (Response False 12 (Some 3), False),
          (Response True 12 (Some 3), False)] init_advanced) = 5
   \<and> received (loop_advanced 10 [(Raised, False), (Response True 10 None, False),
          (Response True 12 (Some 3), False), (Response False 12 (Some 3), False),
          (Response True 12 (Some 3), False)] init_advanced) = 3
   \<and> packet_loss (loop_advanced 10 [(Raised, False), (Response True 10 None, False),
          (Response True 12 (Some 3), False), (Response False 12 (Some 3), False),
          (Response True 12 (Some 3), False)] init_advanced) = 40
   \<and> sent (loop_basic 10 [(Raised, False), (Response True 10 None, False),
          (Response True 12 (Some 3), False), (Response False 12 (Some 3), False),
          (Response True 12 (Some 3), False)] init_basic) = 5
   \<and> received (loop_basic 10 [(Raised, False), (Response True 10 None, False),
          (Response True 12 (Some 3), False), (Response False 12 (Some 3), False),
          (Response True 12 (Some 3), False)] init_basic) = 3
   \<and> packet_loss (loop_basic 10 [(Raised, False), (Response True 10 None, False),
          (Response True 12 (Some 3), False), (Response False 12 (Some 3), False),
          (Response True 12 (Some 3), False)] init_basic) = 40"
proof -
  define evs where "evs = [(Raised, False), (Response True 10 None, False),
          (Response True 12 (Some 3), False), (Response False 12 (Some 3), False),
          (Response True 12 (Some 3), False)]"
  have a: "sent (loop_advanced 10 evs init_advanced) = 5
           \<and> received (loop_advanced 10 evs init_advanced) = 3"
    by (simp add: evs_def init_advanced_def tick_advanced_def Let_def)
  have b: "sent (loop_basic 10 evs init_basic) = 5
           \<and> received (loop_basic 10 evs init_basic) = 3"
    by (simp add: evs_def init_basic_def tick_basic_def Let_def)
  show ?thesis
    using a b reported_statistics [of 10 evs "\<lambda>xs. 1"]
    unfolding evs_def [symmetric] by blast
qed

section \<open>Height normalisation\<close>

lemma py_index_in_range: "0 \<le> y \<Longrightarrow> y < int n \<Longrightarrow> py_index n y = Inr (nat y)"
  by (simp add: py_index_def)

lemma set_cell_in_range:
  assumes "0 \<le> y" "y < int (length rows)" "x < length (rows ! nat y)"
  shows "set_cell rows y x = Inr (rows[nat y := (rows ! nat y)[x := FullBlock]])"
  using assms by (simp add: set_cell_def py_index_in_range)

lemma draw_cells:
  assumes "length rows = h" and "\<forall>r<h. length (rows ! r) = w" and "x + length vals \<le> w"
    and "\<forall>v\<in>set vals. 0 \<le> row_of lo spn height v \<and> row_of lo spn height v < int h"
  shows "\<exists>rows'. draw lo spn height x vals rows = Inr rows' \<and> length rows' = h
           \<and> (\<forall>r<h. length (rows' ! r) = w)
           \<and> (\<forall>r<h. \<forall>c<w. rows' ! r ! c =
                 (if x \<le> c \<and> c < x + length vals \<and> row_of lo spn height (vals ! (c - x)) = int r
                  then FullBlock else rows ! r ! c))"
  using assms
proof (induction vals arbitrary: x rows)
  case Nil
  then show ?case by auto
next
  case (Cons v vals)
  define y where "y = row_of lo spn height v"
  have y: "0 \<le> y" "y < int h" using Cons.prems(4) by (simp_all add: y_def)
  then have ny: "nat y < h" by linarith
  have x: "x < w" using Cons.prems(3) by simp
  define rows1 where "rows1 = rows[nat y := (rows ! nat y)[x := FullBlock]]"
  have sc: "set_cell rows y x = Inr rows1"
    unfolding rows1_def using y x ny Cons.prems(1,2) by (intro set_cell_in_range) simp_all
  have l1: "length rows1 = h" by (simp add: rows1_def Cons.prems(1))
  have w1: "\<forall>r<h. length (rows1 ! r) = w"
    using Cons.prems(1,2) ny by (auto simp: rows1_def nth_list_update)
  have c1: "\<And>r c. r < h \<Longrightarrow> c < w \<Longrightarrow>
              rows1 ! r ! c = (if c = x \<and> int r = y then FullBlock else rows ! r ! c)"
    using Cons.prems(1,2) y ny x by (auto simp: rows1_def nth_list_update)
  have "\<exists>rows'. draw lo spn height (Suc x) vals rows1 = Inr rows' \<and> length rows' = h
           \<and> (\<forall>r<h. length (rows' ! r) = w)
           \<and> (\<forall>r<h. \<forall>c<w. rows' ! r ! c =
                 (if Suc x \<le> c \<and> c < Suc x + length vals
                     \<and> row_of lo spn height (vals ! (c - Suc x)) = int r
                  then FullBlock else rows1 ! r ! c))"
    using l1 w1 Cons.prems(3,4) by (intro Cons.IH) simp_all
  then obtain rows' where r: "draw lo spn height (Suc x) vals rows1 = Inr rows'"
      "length rows' = h" "\<forall>r<h. length (rows' ! r) = w"
      "\<And>r c. r < h \<Longrightarrow> c < w \<Longrightarrow> rows' ! r ! c =
                 (if Suc x \<le> c \<and> c < Suc x + length vals
                     \<and> row_of lo spn height (vals ! (c - Suc x)) = int r
                  then FullBlock else rows1 ! r ! c)"
    by blast
  have d: "draw lo spn height x (v # vals) rows = Inr rows'"
    using sc r(1) by (simp add: y_def)
  have "rows' ! r ! c =
          (if x \<le> c \<and> c < x + length (v # vals)
              \<and> row_of lo spn height ((v # vals) ! (c - x)) = int r
           then FullBlock else rows ! r ! c)" if "r < h" "c < w" for r c
  proof (cases "c = x")
    case True
    then show ?thesis using r(4) [OF that] c1 [OF that] by (auto simp: y_def)
  next
    case False
    then have "x \<le> c \<Longrightarrow> (v # vals) ! (c - x) = vals ! (c - Suc x)"
      by (simp add: nth_Cons')
    with False show ?thesis using r(4) [OF that] c1 [OF that] by auto
  qed
  with d r(2,3) show ?case by blast
qed


lemma of_pyint_exact: "0 \<le> k \<Longrightarrow> k < 2 ^ 53 \<Longrightarrow> of_pyint k = of_int k"
  by (simp add: of_pyint_def fl_of_nat_exact)



lemma span_of_flat: "Max (set data) = Min (set data) \<Longrightarrow> span_of data = 1"
  by (simp add: span_of_def fsub_def fl_zero)




lemma row_of_min: "row_of lo spn height lo = height - 1"
  by (simp add: row_of_def fsub_def fdiv_def fmul_def fl_zero py_int_def)



lemma plot_rows_grid:
  assumes "data \<noteq> []" and "length data = nat width"
    and "\<forall>v\<in>set data. 0 \<le> row_of (Min (set data)) (span_of data) height v
                        \<and> row_of (Min (set data)) (span_of data) height v < int (nat height)"
  shows "plot_rows data width height
           = Inr (grid_of (\<lambda>c. row_of (Min (set data)) (span_of data) height (data ! c))
                    (nat width) (nat height))"
proof -
  define lo where "lo = Min (set data)"
  define s where "s = span_of data"
  define rows where "rows = blank_rows width height"
  have l: "length rows = nat height" by (simp add: rows_def blank_rows_def)
  have w: "\<forall>r<nat height. length (rows ! r) = nat width"
    by (simp add: rows_def blank_rows_def)
  have "\<exists>rows'. draw lo s height 0 data rows = Inr rows' \<and> length rows' = nat height
           \<and> (\<forall>r<nat height. length (rows' ! r) = nat width)
           \<and> (\<forall>r<nat height. \<forall>c<nat width. rows' ! r ! c =
                 (if 0 \<le> c \<and> c < 0 + length data \<and> row_of lo s height (data ! (c - 0)) = int r
                  then FullBlock else rows ! r ! c))"
    using l w assms(2,3) by (intro draw_cells) (simp_all add: lo_def s_def)
  then obtain rows' where r: "draw lo s height 0 data rows = Inr rows'"
    "length rows' = nat height" "\<forall>r<nat height. length (rows' ! r) = nat width"
    "\<And>r c. r < nat height \<Longrightarrow> c < nat width \<Longrightarrow> rows' ! r ! c =
        (if row_of lo s height (data ! c) = int r then FullBlock else rows ! r ! c)"
    using assms(2) by auto
  have "rows' = grid_of (\<lambda>c. row_of lo s height (data ! c)) (nat width) (nat height)"
  proof (rule nth_equalityI)
    show "length rows' = length (grid_of (\<lambda>c. row_of lo s height (data ! c)) (nat width) (nat height))"
      by (simp add: r(2) grid_of_def)
  next
    fix i assume i: "i < length rows'"
    then have ih: "i < nat height" by (simp add: r(2))
    show "rows' ! i = grid_of (\<lambda>c. row_of lo s height (data ! c)) (nat width) (nat height) ! i"
    proof (rule nth_equalityI)
      show "length (rows' ! i)
              = length (grid_of (\<lambda>c. row_of lo s height (data ! c)) (nat width) (nat height) ! i)"
        using ih r(3) by (simp add: grid_of_def)
    next
      fix j assume "j < length (rows' ! i)"
      then have jw: "j < nat width" using ih r(3) by simp
      show "rows' ! i ! j
              = grid_of (\<lambda>c. row_of lo s height (data ! c)) (nat width) (nat height) ! i ! j"
        using r(4) [OF ih jw] ih jw by (simp add: grid_of_def rows_def blank_rows_def)
    qed
  qed
  with r(1) show ?thesis
    using assms(1) by (simp add: plot_rows_def lo_def s_def rows_def)
qed

lemma normalize_width_same:
  "int (length series) = width \<Longrightarrow> 2 \<le> length series \<Longrightarrow> normalize_width series width = Inr series"
  by (simp add: normalize_width_def Let_def)

lemma normalize_width_flat:
  assumes "1 \<le> n" and "int n \<le> width" and "2 \<le> width"
  shows "normalize_width (replicate n c) width = Inr (replicate (nat width) c)"
proof (cases "n = 1")
  case True
  show ?thesis
  proof (cases "width = 2")
    case True
    with \<open>n = 1\<close> show ?thesis by (simp add: normalize_width_def numeral_eq_Suc)
  next
    case False
    with assms have "2 < width" by simp
    then have "replicate (nat (width - 2)) c = replicate (nat width - 2) c" by (simp add: nat_diff_distrib)
    moreover have "c # c # replicate (nat width - 2) c = replicate (nat width) c"
      using \<open>2 < width\<close> by (simp add: numeral_eq_Suc flip: replicate_Suc) 
    ultimately show ?thesis using \<open>n = 1\<close> \<open>2 < width\<close> by (simp add: normalize_width_def)
  qed
next
  case False
  with assms have n: "2 \<le> n" by simp
  show ?thesis
  proof (cases "int n = width")
    case True
    then have "nat width = n" by auto
    with True n show ?thesis by (simp add: normalize_width_same)
  next
    case False
    with assms have lt: "int n < width" by simp
    then have "replicate n c @ replicate (nat (width - int n)) c = replicate (nat width) c"
      by (simp add: nat_diff_distrib flip: replicate_add)
    with lt n show ?thesis by (simp add: normalize_width_def Let_def)
  qed
qed

lemma grid_of_cong:
  "(\<And>c. c < w \<Longrightarrow> f c = g c) \<Longrightarrow> grid_of f w h = grid_of g w h"
  by (simp add: grid_of_def)

lemma grid_of_bottom:
  assumes "1 \<le> height"
  shows "grid_of (\<lambda>c. height - 1) w (nat height)
           = replicate (nat height - 1) (replicate w Space) @ [replicate w FullBlock]"
proof -
  obtain k where k: "nat height = Suc k" using assms by (cases "nat height") auto
  then have h: "height - 1 = int k" by linarith
  have "map (\<lambda>r. map (\<lambda>c. if int k = int r then FullBlock else Space) [0..<w]) [0..<k]
          = map (\<lambda>r. replicate w Space) [0..<k]"
    by (rule map_cong) (simp_all add: map_replicate_const)
  then show ?thesis
    by (simp add: grid_of_def k h map_replicate_const)
qed


text \<open>
  Claim C5, as the code has it. For a flat width-normalized series (\<open>max - min = 0\<close>) the span
  is replaced by 1, so nothing is divided by zero, and every column is drawn in the bottom
  row, index \<open>height - 1\<close>: the grid is blank rows above one full row. The renderer gives
  this grid for every constant series that is not longer than the width.
\<close>

theorem flat_series_bottom_row:
  assumes "data \<noteq> []" and "Max (set data) = Min (set data)" and "length data = nat width"
    and "1 \<le> height"
  shows "span_of data = 1
    \<and> plot_rows data width height
        = Inr (replicate (nat height - 1) (replicate (nat width) Space)
                 @ [replicate (nat width) FullBlock])
    \<and> (1 \<le> n \<and> int n \<le> width \<and> 2 \<le> width \<longrightarrow>
         render_chart_precise (replicate n c) width height
           = Inr (join_rows (replicate (nat height - 1) (replicate (nat width) Space)
                               @ [replicate (nat width) FullBlock])))"
proof -
  have flat: "plot_rows d width height
        = Inr (replicate (nat height - 1) (replicate (nat width) Space)
                 @ [replicate (nat width) FullBlock])"
    if d: "d \<noteq> []" "Max (set d) = Min (set d)" "length d = nat width" for d
  proof -
    have v: "v = Min (set d)" if "v \<in> set d" for v
    proof -
      have "Min (set d) \<le> v" "v \<le> Max (set d)" using that by simp_all
      then show ?thesis unfolding d(2) by (rule order.antisym [rotated])
    qed
    have r: "row_of (Min (set d)) (span_of d) height v = height - 1" if "v \<in> set d" for v
      using v [OF that] by (simp add: row_of_min)
    have "plot_rows d width height
            = Inr (grid_of (\<lambda>c. row_of (Min (set d)) (span_of d) height (d ! c))
                    (nat width) (nat height))"
      using d(1,3) r assms(4) by (intro plot_rows_grid) simp_all
    also have "grid_of (\<lambda>c. row_of (Min (set d)) (span_of d) height (d ! c)) (nat width) (nat height)
                 = grid_of (\<lambda>c. height - 1) (nat width) (nat height)"
      using r d(3) by (intro grid_of_cong) simp
    also have "\<dots> = replicate (nat height - 1) (replicate (nat width) Space)
                 @ [replicate (nat width) FullBlock]"
      using assms(4) by (rule grid_of_bottom)
    finally show ?thesis .
  qed
  have 1: "span_of data = 1" using assms(2) by (rule span_of_flat)
  have 2: "plot_rows data width height
        = Inr (replicate (nat height - 1) (replicate (nat width) Space)
                 @ [replicate (nat width) FullBlock])"
    using assms(1,2,3) by (rule flat)
  have 3: "render_chart_precise (replicate n c) width height
           = Inr (join_rows (replicate (nat height - 1) (replicate (nat width) Space)
                               @ [replicate (nat width) FullBlock]))"
    if n: "1 \<le> n" "int n \<le> width" "2 \<le> width"
  proof -
    have nw: "normalize_width (replicate n c) width = Inr (replicate (nat width) c)"
      using n by (rule normalize_width_flat)
    have w: "0 < nat width" using n(3) by simp
    then have "replicate (nat width) c \<noteq> []" by simp
    moreover have "Max (set (replicate (nat width) c)) = Min (set (replicate (nat width) c))"
      using w by simp
    ultimately have "plot_rows (replicate (nat width) c) width height
        = Inr (replicate (nat height - 1) (replicate (nat width) Space)
                 @ [replicate (nat width) FullBlock])"
      by (intro flat) simp_all
    with nw n(1) show ?thesis by (simp add: render_chart_precise_def)
  qed
  from 1 2 3 show ?thesis by blast
qed

theorem flat_series_bottom_row_witness:
  "[5, 5, 5 :: rat] \<noteq> [] \<and> Max (set [5, 5, 5 :: rat]) = Min (set [5, 5, 5 :: rat])
   \<and> length [5, 5, 5 :: rat] = nat 3 \<and> (1::int) \<le> 3
   \<and> (1::nat) \<le> 2 \<and> int 2 \<le> 3 \<and> (2::int) \<le> 3
   \<and> span_of [5, 5, 5] = 1
   \<and> plot_rows [5, 5, 5] 3 3
       = Inr [[Space, Space, Space], [Space, Space, Space], [FullBlock, FullBlock, FullBlock]]
   \<and> render_chart_precise (replicate 2 7) 3 3
       = Inr [Space, Space, Space, Newline, Space, Space, Space, Newline,
              FullBlock, FullBlock, FullBlock]"
proof -
  have h: "[5, 5, 5 :: rat] \<noteq> []" "Max (set [5, 5, 5 :: rat]) = Min (set [5, 5, 5 :: rat])"
    "length [5, 5, 5 :: rat] = nat 3" "(1::int) \<le> 3"
    by simp_all
  have k: "(1::nat) \<le> 2 \<and> int 2 \<le> 3 \<and> (2::int) \<le> 3" by simp
  have g: "replicate (nat 3 - 1) (replicate (nat 3) Space) @ [replicate (nat 3) FullBlock]
             = [[Space, Space, Space], [Space, Space, Space], [FullBlock, FullBlock, FullBlock]]"
    by (simp add: numeral_eq_Suc)
  have j: "join_rows [[Space, Space, Space], [Space, Space, Space],
                      [FullBlock, FullBlock, FullBlock]]
             = [Space, Space, Space, Newline, Space, Space, Space, Newline,
                FullBlock, FullBlock, FullBlock]"
    by simp
  show ?thesis
    using h k flat_series_bottom_row [OF h, of 2 7] unfolding g j by blast
qed

theorem flat_series_counterexample:
  "plot_rows [5, 5, 5] 3 3
     = Inr [[Space, Space, Space], [Space, Space, Space], [FullBlock, FullBlock, FullBlock]]
   \<and> spec_flat_rows 3 3
     = [[Space, Space, Space], [FullBlock, FullBlock, FullBlock], [Space, Space, Space]]
   \<and> plot_rows [5, 5, 5] 3 3 \<noteq> Inr (spec_flat_rows 3 3)
   \<and> render_chart_precise [5, 5, 5] 3 3 \<noteq> Inr (join_rows (spec_flat_rows 3 3))"
  by code_simp




text \<open>The float that is truncated can lie just below the integer that exact arithmetic
  gives: \<open>1/49\<close> rounds down, and 49 times the double is \<open>1 - 2^-53\<close>. With values
  between 0 and 49 and 50 rows, the value 1 is drawn in the bottom row 49, where the exact
  quotient would put it in row 48.\<close>

lemma truncation_below_exact:
  "fmul (fdiv (fsub 1 0) 49) (of_pyint 49) = 1 - 1 / 2 ^ 53
   \<and> row_of 0 49 50 1 = 49
   \<and> 50 - 1 - \<lfloor>(1 - 0) / 49 * of_int (50 - 1) :: rat\<rfloor> = 48"
  by code_simp

section \<open>Bucket compression\<close>

lemma py_slice_nat:
  "py_slice xs (int a) (int b) = take (min b (length xs) - min a (length xs)) (drop (min a (length xs)) xs)"
  by (simp add: py_slice_def clamp_index_def Let_def min_def)

lemma compress_map:
  assumes "\<And>i. i \<in> set idx \<Longrightarrow> bucket data step i \<noteq> []"
  shows "compress data step idx
           = Inr (map (\<lambda>i. fdiv (fsum (bucket data step i))
                                (of_pyint (int (length (bucket data step i))))) idx)"
  using assms by (induction idx) (simp_all add: chunk_mean_def)

lemma bucket_exact_step:
  assumes "0 \<le> i" and "i < width" and "int (length data) = k * width" and "1 \<le> k"
    and "int (length data) < 2 ^ 53"
  shows "bucket data (truediv (int (length data)) width) i = take (nat k) (drop (nat (i * k)) data)"
    and "spec_bucket data width i = take (nat k) (drop (nat (i * k)) data)"
proof -
  have w: "0 < width" using assms(1,2) by simp
  have kn: "k \<le> int (length data)" using assms(3,4) w by (simp add: mult_le_cancel_left1)
  have st: "truediv (int (length data)) width = of_int k"
  proof -
    have "(of_int (int (length data)) :: rat) / of_int width = of_int k"
      using w by (simp add: assms(3))
    then show ?thesis
      unfolding truediv_def using assms(4,5) kn by (simp add: fl_of_nat_exact)
  qed
  have b: "j * k \<le> int (length data)" if "0 \<le> j" "j \<le> width" for j
    using that assms(4) by (simp add: assms(3) mult.commute mult_left_mono)
  have e: "py_int (fmul (of_pyint j) (of_int k)) = j * k" if j: "0 \<le> j" "j \<le> width" for j
  proof -
    have "j * 1 \<le> j * k" using j(1) assms(4) by (intro mult_left_mono) simp_all
    then have jn: "j \<le> int (length data)" using b [OF j] by simp
    have "of_pyint j = of_int j" using j(1) jn assms(5) by (intro of_pyint_exact) simp_all
    moreover have "fl (of_int (j * k)) = of_int (j * k)"
      using b [OF j] j(1) assms(4,5) by (intro fl_of_nat_exact) simp_all
    ultimately have "fmul (of_pyint j) (of_int k) = of_int (j * k)" by (simp add: fmul_def)
    moreover have "0 \<le> j * k" using j(1) assms(4) by simp
    ultimately show ?thesis by (simp only: py_int_def of_int_0_le_iff if_True floor_of_int)
  qed
  have s: "\<lfloor>of_int j * (of_nat (length data) / of_int width :: rat)\<rfloor> = j * k" for j
  proof -
    have "(of_nat (length data) :: rat) = of_int (k * width)"
      using assms(3) by (metis of_int_of_nat_eq)
    then have "(of_nat (length data) / of_int width :: rat) = of_int k" using w by simp
    then have "of_int j * (of_nat (length data) / of_int width :: rat) = of_int (j * k)" by simp
    then show ?thesis by (simp only: floor_of_int)
  qed
  have i1: "0 \<le> i + 1" "i + 1 \<le> width" "i \<le> width" using assms(1,2) by simp_all
  have n1: "nat (i * k) \<le> length data" using b [OF assms(1) i1(3)] by linarith
  have n2: "nat ((i + 1) * k) \<le> length data" using b [OF i1(1,2)] by linarith
  have d: "nat ((i + 1) * k) - nat (i * k) = nat k"
    using assms(1,4) by (simp add: nat_diff_distrib algebra_simps nat_add_distrib nat_mult_distrib)
  have sl: "py_slice data (i * k) ((i + 1) * k) = take (nat k) (drop (nat (i * k)) data)"
  proof -
    have "py_slice data (int (nat (i * k))) (int (nat ((i + 1) * k)))
            = take (nat k) (drop (nat (i * k)) data)"
      unfolding py_slice_nat using n1 n2 d by (simp add: min_absorb1)
    then show ?thesis using assms(1,4) by simp
  qed
  show "bucket data (truediv (int (length data)) width) i = take (nat k) (drop (nat (i * k)) data)"
    unfolding bucket_def Let_def st e [OF assms(1) i1(3)] e [OF i1(1,2)] by (rule sl)
  show "spec_bucket data width i = take (nat k) (drop (nat (i * k)) data)"
    unfolding spec_bucket_def s by (rule sl)
qed

text \<open>When the width divides the length, the step is an integer and no product is
  rounded: the buckets of the code are those of the specification, each of \<open>n / width\<close>
  samples, and there are \<open>width\<close> columns.\<close>

lemma normalize_width_exact_step:
  assumes "1 \<le> width" and "int (length data) = k * width" and "2 \<le> k"
    and "int (length data) < 2 ^ 53"
  shows "normalize_width data width
           = Inr (map (\<lambda>i. fdiv (fsum (spec_bucket data width i)) (of_pyint k)) (py_range width))"
proof -
  have k1: "1 \<le> k" using assms(3) by simp
  have "2 * width \<le> k * width" using assms(1,3) by (intro mult_right_mono) simp_all
  then have n: "width < int (length data)" using assms(1,2) by simp
  then have l: "length data \<noteq> 1" using assms(1) by auto
  have idx: "0 \<le> i \<and> i < width" if "i \<in> set (py_range width)" for i
    using that by (simp add: py_range_def)
  have bk: "bucket data (truediv (int (length data)) width) i = spec_bucket data width i"
    if "i \<in> set (py_range width)" for i
    using bucket_exact_step [OF _ _ assms(2) k1 assms(4), of i] idx [OF that] by simp
  have len: "length (spec_bucket data width i) = nat k" if "i \<in> set (py_range width)" for i
  proof -
    have "(i + 1) * k \<le> k * width" using idx [OF that] k1
      by (simp add: mult.commute mult_left_mono)
    then have "nat (i * k) + nat k \<le> length data"
      using assms(2) idx [OF that] k1 by (simp add: algebra_simps flip: nat_add_distrib)
    then show ?thesis
      using bucket_exact_step(2) [OF _ _ assms(2) k1 assms(4), of i] idx [OF that] by simp
  qed
  have ne: "bucket data (truediv (int (length data)) width) i \<noteq> []"
    if "i \<in> set (py_range width)" for i
    using len [OF that] bk [OF that] k1 by auto
  have "compress data (truediv (int (length data)) width) (py_range width)
          = Inr (map (\<lambda>i. fdiv (fsum (bucket data (truediv (int (length data)) width) i))
                   (of_pyint (int (length (bucket data (truediv (int (length data)) width) i)))))
                 (py_range width))"
    using ne by (rule compress_map)
  also have "map (\<lambda>i. fdiv (fsum (bucket data (truediv (int (length data)) width) i))
                   (of_pyint (int (length (bucket data (truediv (int (length data)) width) i)))))
                 (py_range width)
               = map (\<lambda>i. fdiv (fsum (spec_bucket data width i)) (of_pyint k)) (py_range width)"
    using bk len k1 by (intro map_cong) simp_all
  finally show ?thesis
    using n l assms(1) by (simp add: normalize_width_def Let_def)
qed

text \<open>
  Claim C1 at the series \<open>0, 1, \<dots>, 14\<close> and width 11. The step is the double nearest to
  \<open>15/11\<close>, which is below it, and 11 times the step rounds to the double just below 15:
  the last bucket ends at index 14 and the sample at index 14 is in no bucket, so the
  last column is 13 and not the mean 13.5 of \<open>data[13..15)\<close>. At \<open>0, 1, \<dots>, 9\<close> and width 5
  the step is 2 and the columns are the means of the claim.
\<close>

theorem last_bucket_loses_sample:
  "normalize_width (map of_int [0..14]) 11
     = Inr [0, 1, 5 / 2, 4, 5, 13 / 2, 8, 9, 21 / 2, 12, 13]
   \<and> spec_compress (map of_int [0..14]) 11
     = [0, 1, 5 / 2, 4, 5, 13 / 2, 8, 9, 21 / 2, 12, 27 / 2]
   \<and> bucket (map of_int [0..14]) (truediv 15 11) 10 = [13]
   \<and> spec_bucket (map of_int [0..14]) 11 10 = [13, 14]
   \<and> truediv 15 11 = 6141272219141585 / 2 ^ 52
   \<and> fmul (of_pyint 11) (truediv 15 11) = 15 - 8 / 2 ^ 52
   \<and> py_int (fmul (of_pyint 11) (truediv 15 11)) = 14
   \<and> normalize_width (map of_int [0..9]) 5 = Inr [1 / 2, 5 / 2, 9 / 2, 13 / 2, 17 / 2]"
  by code_simp

end
